theory Spec2Isabelle
  imports Main "HOL-Library.Sublist" "HOL-Library.Product_Lexorder" "HOL-Library.AList"
begin

section \<open>Errors\<close>

text \<open>
  The exceptions the modelled code can raise. A function that can raise returns
  \<open>error + 'a\<close>, with \<open>Inl\<close> for the exception.
\<close>

datatype error = ValueError | NameError | IOError | KeyError

section \<open>Memory mappings (haystack/mappings/base.py)\<close>

text \<open>
  \<open>MemoryMapping\<close> holds the metadata of one mapping. Addresses are Python integers,
  hence \<open>int\<close>. The attribute \<open>end\<close> is spelled \<open>end_addr\<close> here.
\<close>

record MemoryMapping =
  start :: int
  end_addr :: int
  permissions :: string
  offset :: int
  major_device :: int
  minor_device :: int
  inode :: int
  pathname :: string

text \<open>\<open>__contains__\<close>: \<open>self.start <= address < self.end\<close>.\<close>

definition contains :: "'a MemoryMapping_scheme \<Rightarrow> int \<Rightarrow> bool" where
  "contains m address \<longleftrightarrow> start m \<le> address \<and> address < end_addr m"

text \<open>
  \<open>__len__\<close> returns \<open>int(self.end - self.start)\<close>; the builtin \<open>len()\<close> raises
  ValueError when \<open>__len__\<close> returns a negative number.
\<close>

definition len_raw :: "'a MemoryMapping_scheme \<Rightarrow> int" where
  "len_raw m = end_addr m - start m"

definition len :: "'a MemoryMapping_scheme \<Rightarrow> error + int" where
  "len m = (if len_raw m < 0 then Inl ValueError else Inr (len_raw m))"

section \<open>The list of mappings of one process\<close>

text \<open>
  \<open>Mappings\<close> owns the list of mappings and the book of references. The book's
  \<open>refs\<close> dictionary is keyed by \<open>(typ, addr)\<close>; both default to \<open>None\<close> in
  \<open>keepRef\<close>, hence the options. The dictionary is an association list whose keys
  are distinct; the order of its entries stands for the iteration order of the
  dictionary, which Python leaves open, and no result below depends on it.
\<close>

type_synonym ('t, 'o) refs = "(('t option \<times> int option) \<times> 'o) list"

record ('t, 'o) Mappings =
  mappings :: "MemoryMapping list"
  refs :: "('t, 'o) refs"

text \<open>
  \<open>get_mapping_for_address\<close>: the first mapping of the list that contains the
  address, \<open>False\<close> (here \<open>None\<close>) when there is none.
\<close>

definition get_mapping_for_address :: "('t, 'o) Mappings \<Rightarrow> int \<Rightarrow> MemoryMapping option" where
  "get_mapping_for_address ms vaddr = List.find (\<lambda>m. contains m vaddr) (mappings ms)"

text \<open>\<open>Mappings.__contains__\<close>.\<close>

definition Mappings_contains :: "('t, 'o) Mappings \<Rightarrow> int \<Rightarrow> bool" where
  "Mappings_contains ms vaddr \<longleftrightarrow> list_ex (\<lambda>m. contains m vaddr) (mappings ms)"

text \<open>
  \<open>vtop\<close>: the offset of an address in the mapping. \<open>len(self)\<close> is only
  evaluated when \<open>ret < 0\<close> is false.
\<close>

definition vtop :: "'a MemoryMapping_scheme \<Rightarrow> int \<Rightarrow> error + int" where
  "vtop m vaddr =
     (let ret = vaddr - start m in
      if ret < 0 then Inl ValueError
      else case len m of
             Inl e \<Rightarrow> Inl e
           | Inr n \<Rightarrow> if ret > n then Inl ValueError else Inr ret)"

text \<open>\<open>ptov\<close>: \<open>pstart = self.vtop(self.start); vaddr = paddr - pstart\<close>.\<close>

definition ptov :: "'a MemoryMapping_scheme \<Rightarrow> int \<Rightarrow> error + int" where
  "ptov m paddr =
     (case vtop m (start m) of
        Inl e \<Rightarrow> Inl e
      | Inr pstart \<Rightarrow> Inr (paddr - pstart))"

subsection \<open>Address validation\<close>

text \<open>
  The objects \<open>utils.get_pointee_address\<close> tells apart, one constructor per branch
  of its \<open>if\<close>/\<open>elif\<close> chain, in the order of the chain: an object with a
  \<open>_sub_addr_\<close> attribute, an integer, an object whose truth value is false, a
  ctypes function pointer, a ctypes pointer (both not null, with the value of their
  cast to \<open>c_void_p\<close>), anything else.
\<close>

datatype pointee = SubAddr int | IntObj int | Falsy | FunctionPtr int | CPointer int | OtherObj

fun get_pointee_address :: "pointee \<Rightarrow> int" where
  "get_pointee_address (SubAddr a) = a"
| "get_pointee_address (IntObj a) = a"
| "get_pointee_address Falsy = 0"
| "get_pointee_address (FunctionPtr a) = a"
| "get_pointee_address (CPointer a) = a"
| "get_pointee_address OtherObj = 0"

text \<open>
  The truth value of a mapping in \<open>if m:\<close>. The class defines \<open>__len__\<close> and no
  \<open>__nonzero__\<close>, so the mapping is true when its length is not zero.
\<close>

definition truth :: "'a MemoryMapping_scheme \<Rightarrow> error + bool" where
  "truth m = (case len m of Inl e \<Rightarrow> Inl e | Inr n \<Rightarrow> Inr (n \<noteq> 0))"

text \<open>
  \<open>is_valid_address_value\<close>. A structure type is given by its \<open>ctypes.sizeof\<close>;
  the result \<open>False\<close> is \<open>None\<close>.
\<close>

definition is_valid_address_value ::
  "('t, 'o) Mappings \<Rightarrow> int \<Rightarrow> int option \<Rightarrow> error + MemoryMapping option" where
  "is_valid_address_value ms addr structType =
     (case get_mapping_for_address ms addr of
        None \<Rightarrow> Inr None
      | Some m \<Rightarrow>
          (case truth m of
             Inl e \<Rightarrow> Inl e
           | Inr False \<Rightarrow> Inr None
           | Inr True \<Rightarrow>
               (case structType of
                  None \<Rightarrow> Inr (Some m)
                | Some s \<Rightarrow>
                    if addr + s < start m \<or> addr + s > end_addr m then Inr None
                    else Inr (Some m))))"

definition is_valid_address ::
  "('t, 'o) Mappings \<Rightarrow> pointee \<Rightarrow> int option \<Rightarrow> error + MemoryMapping option" where
  "is_valid_address ms obj structType =
     (let addr = get_pointee_address obj in
      if addr = 0 then Inr None else is_valid_address_value ms addr structType)"

subsection \<open>The book of references\<close>

text \<open>\<open>(typ, addr) in self.refs\<close>.\<close>

definition in_refs :: "('t, 'o) refs \<Rightarrow> 't option \<times> int option \<Rightarrow> bool" where
  "in_refs r k \<longleftrightarrow> map_of r k \<noteq> None"



text \<open>\<open>_book.delRef\<close>: \<open>del self.refs[(typ, addr)]\<close>.\<close>

definition book_delRef :: "('t, 'o) refs \<Rightarrow> 't option \<Rightarrow> int option \<Rightarrow> error + ('t, 'o) refs" where
  "book_delRef r typ addr =
     (if in_refs r (typ, addr) then Inr (AList.delete (typ, addr) r) else Inl KeyError)"

definition hasRef :: "('t, 'o) Mappings \<Rightarrow> 't option \<Rightarrow> int option \<Rightarrow> bool" where
  "hasRef ms typ origAddr \<longleftrightarrow> in_refs (refs ms) (typ, origAddr)"




definition delRef :: "('t, 'o) Mappings \<Rightarrow> 't option \<Rightarrow> int option \<Rightarrow> error + ('t, 'o) Mappings" where
  "delRef ms typ origAddr =
     (if in_refs (refs ms) (typ, origAddr)
      then (case book_delRef (refs ms) typ origAddr of
              Inl e \<Rightarrow> Inl e
            | Inr r \<Rightarrow> Inr (ms\<lparr>refs := r\<rparr>))
      else Inr ms)"

text \<open>\<open>reset\<close> empties the book.\<close>

definition reset :: "('t, 'o) Mappings \<Rightarrow> ('t, 'o) Mappings" where
  "reset ms = ms\<lparr>refs := []\<rparr>"

section \<open>Reading strings and searching (haystack/mappings/base.py)\<close>

text \<open>
  Byte strings are lists of characters. \<open>readBytes\<close> is left to the subclasses of
  \<open>MemoryMapping\<close>; the functions below take it as a parameter, a function from
  an address and a size to the bytes read or the exception raised.
\<close>

type_synonym reader = "int \<Rightarrow> int \<Rightarrow> error + string"

definition NUL :: char where
  "NUL = CHR 0x00"

text \<open>Python's \<open>data[:n]\<close> and \<open>data[i:j]\<close>, negative indices counting from the end.\<close>

definition py_index :: "'a list \<Rightarrow> int \<Rightarrow> nat" where
  "py_index xs i =
     (if i < 0 then nat (int (length xs) + i) else min (nat i) (length xs))"

definition py_slice :: "'a list \<Rightarrow> int \<Rightarrow> int \<Rightarrow> 'a list" where
  "py_slice xs i j = take (py_index xs j - py_index xs i) (drop (py_index xs i) xs)"

definition py_slice_to :: "'a list \<Rightarrow> int \<Rightarrow> 'a list" where
  "py_slice_to xs j = take (py_index xs j) xs"

text \<open>Python's \<open>data.find(sub)\<close>: the lowest index where \<open>sub\<close> starts, or -1.\<close>

fun py_find :: "'a list \<Rightarrow> 'a list \<Rightarrow> int" where
  "py_find [] sub = (if sub = [] then 0 else - 1)"
| "py_find (x # xs) sub =
     (if prefix sub (x # xs) then 0
      else (let r = py_find xs sub in if r = - 1 then - 1 else r + 1))"

text \<open>
  How a loop ends: it returns a value, it raises, or the fuel of the model runs
  out (the loops of \<open>readCString\<close> and \<open>search\<close> need not end).
\<close>

datatype 'a run = Done 'a | Raise error | Fuel

text \<open>
  \<open>readCString\<close>. The first component of the result lists the calls of
  \<open>readBytes\<close>, as (address, size), in the order they are made.
\<close>

fun readCString_loop ::
  "nat \<Rightarrow> reader \<Rightarrow> int \<Rightarrow> int \<Rightarrow> string list \<Rightarrow> int \<Rightarrow> int
   \<Rightarrow> (int \<times> int) list \<times> (string \<times> bool) run" where
  "readCString_loop 0 readBytes max_size chunk_length string size' address = ([], Fuel)"
| "readCString_loop (Suc fuel) readBytes max_size chunk_length string size' address =
     (case readBytes address chunk_length of
        Inl e \<Rightarrow> ([(address, chunk_length)], Raise e)
      | Inr data0 \<Rightarrow>
          (let done = (NUL \<in> set data0);
               data = (if done then takeWhile (\<lambda>c. c \<noteq> NUL) data0 else data0)
           in if max_size \<le> size' + chunk_length
              then ([(address, chunk_length)],
                    Done (concat (string @ [py_slice_to data (max_size - size')]), True))
              else if done
              then ([(address, chunk_length)], Done (concat (string @ [data]), False))
              else (let (reads, r) =
                          readCString_loop fuel readBytes max_size chunk_length
                            (string @ [data]) (size' + chunk_length) (address + chunk_length)
                    in ((address, chunk_length) # reads, r))))"

definition readCString ::
  "nat \<Rightarrow> reader \<Rightarrow> int \<Rightarrow> int \<Rightarrow> int \<Rightarrow> (int \<times> int) list \<times> (string \<times> bool) run" where
  "readCString fuel readBytes address max_size chunk_length =
     readCString_loop fuel readBytes max_size chunk_length [] 0 address"

text \<open>
  \<open>search\<close> is a generator. The first component of the result lists the addresses
  it yields, the second says how the iteration ends.
\<close>

fun search_loop ::
  "nat \<Rightarrow> reader \<Rightarrow> string \<Rightarrow> int \<Rightarrow> int \<Rightarrow> int \<Rightarrow> int list \<times> unit run" where
  "search_loop 0 readBytes bytestr buf_len remaining covered = ([], Fuel)"
| "search_loop (Suc fuel) readBytes bytestr buf_len remaining covered =
     (let bytestr_len = int (length bytestr) in
      if remaining \<ge> bytestr_len then
        (let requested = (if remaining > buf_len then buf_len else remaining) in
         case readBytes covered requested of
           Inl e \<Rightarrow> ([], Raise e)
         | Inr data \<Rightarrow>
             if data = [] then ([], Done ())
             else (let offset = py_find data bytestr in
                   if offset = - 1
                   then (let skip = requested - bytestr_len + 1 in
                         search_loop fuel readBytes bytestr buf_len (remaining - skip) (covered + skip))
                   else (let skip = offset + bytestr_len;
                             (ys, r) = search_loop fuel readBytes bytestr buf_len
                                         (remaining - skip) (covered + skip)
                         in ((covered + offset) # ys, r))))
      else ([], Done ()))"

definition search ::
  "nat \<Rightarrow> reader \<Rightarrow> 'a MemoryMapping_scheme \<Rightarrow> string \<Rightarrow> int list \<times> unit run" where
  "search fuel readBytes m bytestr =
     (let bytestr_len = int (length bytestr);
          buf_len = 64 * 1024;
          buf_len = (if buf_len < bytestr_len then bytestr_len else buf_len);
          remaining = end_addr m - start m;
          covered = start m
      in search_loop fuel readBytes bytestr buf_len remaining covered)"

text \<open>
  What \<open>search\<close> is compared with: the positions at which \<open>needle\<close> starts in
  \<open>xs\<close>, taken from left to right, the scan going on behind each match. \<open>pos\<close>
  is the position of the head of \<open>xs\<close>.
\<close>

function nonoverlapping_occurrences :: "'a list \<Rightarrow> int \<Rightarrow> 'a list \<Rightarrow> int list" where
  "nonoverlapping_occurrences needle pos xs =
     (if needle = [] \<or> length xs < length needle then []
      else if prefix needle xs
      then pos # nonoverlapping_occurrences needle (pos + int (length needle)) (drop (length needle) xs)
      else nonoverlapping_occurrences needle (pos + 1) (tl xs))"
  by pat_completeness auto
termination
proof (relation "measure (\<lambda>(needle, pos, xs). length xs)")
  fix needle :: "'a list" and pos :: int and xs :: "'a list"
  assume "\<not> (needle = [] \<or> length xs < length needle)"
  then have l: "0 < length needle" "length needle \<le> length xs" by auto
  then show "((needle, pos + int (length needle), drop (length needle) xs), needle, pos, xs)
      \<in> measure (\<lambda>(needle, pos, xs). length xs)"
    by (cases needle) auto
  from l show "((needle, pos + 1, tl xs), needle, pos, xs) \<in> measure (\<lambda>(needle, pos, xs). length xs)"
    by (cases xs) auto
qed simp

declare nonoverlapping_occurrences.simps [simp del]

section \<open>A mapping over a local byte buffer (haystack/mappings/file.py)\<close>

text \<open>
  \<open>LocalMemoryMapping\<close> once \<open>getByteBuffer\<close> has set \<open>readBytes\<close> to
  \<open>readBufferBytes\<close>: a slice of the byte buffer.
\<close>

record LocalMemoryMapping = MemoryMapping +
  bytebuffer :: string

definition readBufferBytes :: "LocalMemoryMapping \<Rightarrow> reader" where
  "readBufferBytes m vaddr size' =
     (let laddr = vaddr - start m in Inr (py_slice (bytebuffer m) laddr (laddr + size')))"

section \<open>Mappings read from a file on every access (haystack/mappings/file.py)\<close>

text \<open>
  The file API of Python as the code uses it. A file system holds the contents of
  the named files, the open file objects (descriptor, name, position), and the
  list of the calls made so far.
\<close>

datatype fs_call = OpOpen string | OpSeek int | OpRead int | OpClose

record filesystem =
  files :: "(string \<times> string) list"
  handles :: "(nat \<times> string \<times> int) list"
  calls :: "fs_call list"

text \<open>A descriptor no open file object has.\<close>

definition fresh_fd :: "(nat \<times> string \<times> int) list \<Rightarrow> nat" where
  "fresh_fd hs = Suc (fold max (map fst hs) 0)"

text \<open>\<open>file(name, 'rb')\<close>: IOError when there is no such file.\<close>

definition py_open :: "filesystem \<Rightarrow> string \<Rightarrow> error + nat \<times> filesystem" where
  "py_open fs name =
     (case map_of (files fs) name of
        None \<Rightarrow> Inl IOError
      | Some content \<Rightarrow>
          (let fd = fresh_fd (handles fs)
           in Inr (fd, fs\<lparr>handles := (fd, name, 0) # handles fs,
                           calls := calls fs @ [OpOpen name]\<rparr>)))"

text \<open>\<open>f.seek(offset)\<close>: IOError for a negative offset, ValueError on a closed file.\<close>

definition py_seek :: "filesystem \<Rightarrow> nat \<Rightarrow> int \<Rightarrow> error + filesystem" where
  "py_seek fs fd pos =
     (case map_of (handles fs) fd of
        None \<Rightarrow> Inl ValueError
      | Some (name, old) \<Rightarrow>
          if pos < 0 then Inl IOError
          else Inr (fs\<lparr>handles := AList.update fd (name, pos) (handles fs),
                         calls := calls fs @ [OpSeek pos]\<rparr>))"

text \<open>
  \<open>f.read(size)\<close>: at most \<open>size\<close> bytes from the position, all the bytes up to
  the end of the file for a negative \<open>size\<close>.
\<close>

definition py_read :: "filesystem \<Rightarrow> nat \<Rightarrow> int \<Rightarrow> error + string \<times> filesystem" where
  "py_read fs fd size' =
     (case map_of (handles fs) fd of
        None \<Rightarrow> Inl ValueError
      | Some (name, pos) \<Rightarrow>
          (case map_of (files fs) name of
             None \<Rightarrow> Inl IOError
           | Some content \<Rightarrow>
               (let rest = drop (nat pos) content;
                    data = (if size' < 0 then rest else take (nat size') rest)
                in Inr (data, fs\<lparr>handles := AList.update fd (name, pos + int (length data)) (handles fs),
                                   calls := calls fs @ [OpRead size']\<rparr>))))"

text \<open>\<open>f.close()\<close>.\<close>

definition py_close :: "filesystem \<Rightarrow> nat \<Rightarrow> filesystem" where
  "py_close fs fd = fs\<lparr>handles := AList.delete fd (handles fs), calls := calls fs @ [OpClose]\<rparr>"

text \<open>
  \<open>LazyMmap\<close> keeps the size of the dump and its name. \<open>__init__\<close> takes an open
  file, seeks to its end for the size (\<open>seek(2 ** 64)\<close> raises OverflowError, and
  the handler seeks to the size \<open>fstat\<close> reports), seeks back and closes it.
\<close>

record LazyMmap =
  lazy_size :: int
  memdump_name :: string

definition LazyMmap_init :: "filesystem \<Rightarrow> nat \<Rightarrow> error + LazyMmap \<times> filesystem" where
  "LazyMmap_init fs memdump =
     (case map_of (handles fs) memdump of
        None \<Rightarrow> Inl ValueError
      | Some (name, i) \<Rightarrow>
          (case map_of (files fs) name of
             None \<Rightarrow> Inl IOError
           | Some content \<Rightarrow>
               (case py_seek fs memdump (int (length content)) of
                  Inl e \<Rightarrow> Inl e
                | Inr fs1 \<Rightarrow>
                    (case py_seek fs1 memdump i of
                       Inl e \<Rightarrow> Inl e
                     | Inr fs2 \<Rightarrow>
                         Inr (\<lparr>lazy_size = int (length content), memdump_name = name\<rparr>,
                              py_close fs2 memdump)))))"

text \<open>
  \<open>LazyMmap._get\<close>: open the file by its name, seek, read, close. The bytes go
  through \<open>utils.bytes2array\<close> into an array of unsigned bytes, which keeps them
  as they are. When \<open>seek\<close> or \<open>read\<close> raises, the call of \<open>close\<close> is not
  reached.
\<close>

definition LazyMmap_get :: "filesystem \<Rightarrow> LazyMmap \<Rightarrow> int \<Rightarrow> int \<Rightarrow> (error + string) \<times> filesystem" where
  "LazyMmap_get fs self offs size' =
     (case py_open fs (memdump_name self) of
        Inl e \<Rightarrow> (Inl e, fs)
      | Inr (memdump, fs1) \<Rightarrow>
          (case py_seek fs1 memdump offs of
             Inl e \<Rightarrow> (Inl e, fs1)
           | Inr fs2 \<Rightarrow>
               (case py_read fs2 memdump size' of
                  Inl e \<Rightarrow> (Inl e, fs2)
                | Inr (me, fs3) \<Rightarrow> (Inr me, py_close fs3 memdump))))"

text \<open>\<open>LazyMmap.__getitem__\<close> for a slice \<open>[i:j]\<close>: \<open>_get(i, j - i)\<close>.\<close>

definition LazyMmap_getitem_slice ::
  "filesystem \<Rightarrow> LazyMmap \<Rightarrow> int \<Rightarrow> int \<Rightarrow> (error + string) \<times> filesystem" where
  "LazyMmap_getitem_slice fs self i j = LazyMmap_get fs self i (j - i)"

record FileBackedMemoryMapping = MemoryMapping +
  local_mmap :: LazyMmap

text \<open>\<open>FileBackedMemoryMapping._vtop\<close>.\<close>

definition FileBacked_vtop :: "FileBackedMemoryMapping \<Rightarrow> int \<Rightarrow> error + int" where
  "FileBacked_vtop m vaddr =
     (let ret = vaddr - start m in
      if ret < 0 then Inl ValueError
      else case len m of
             Inl e \<Rightarrow> Inl e
           | Inr n \<Rightarrow> if ret > n then Inl ValueError else Inr ret)"

text \<open>
  \<open>FileBackedMemoryMapping.read_bytes\<close>. \<open>ctypes.c_ubyte * size\<close> raises
  ValueError for a negative size, and its \<open>sizeof\<close> is \<open>size\<close> otherwise. The
  bytes of the array are packed back into a byte string.
\<close>

definition read_bytes ::
  "filesystem \<Rightarrow> FileBackedMemoryMapping \<Rightarrow> int \<Rightarrow> int \<Rightarrow> (error + string) \<times> filesystem" where
  "read_bytes fs m vaddr size' =
     (case FileBacked_vtop m vaddr of
        Inl e \<Rightarrow> (Inl e, fs)
      | Inr laddr \<Rightarrow>
          if size' < 0 then (Inl ValueError, fs)
          else LazyMmap_getitem_slice fs (local_mmap m) laddr (laddr + size'))"

section \<open>The Windows 7 heap walker (haystack/reverse/win32/win7heapwalker.py)\<close>

text \<open>
  The \<open>HEAP\<close> structure comes from the structure model, which is not part of
  these files. The walker uses three of its results: the blocks that
  \<open>iterateListField(mappings, 'VirtualAllocdBlocks')\<close> yields, and the
  (address, size) pairs of \<open>getChunks\<close> and of \<open>getFrontendChunks\<close>.
\<close>

record HEAP_VIRTUAL_ALLOC_ENTRY =
  block_address :: int
  CommitSize :: int
  ReserveSize :: int

record HEAP =
  VirtualAllocdBlocks :: "HEAP_VIRTUAL_ALLOC_ENTRY list"
  getChunks :: "(int \<times> int) list"
  getFrontendChunks :: "(int \<times> int) list"

record Win7HeapWalker =
  heap :: HEAP
  allocs :: "(int \<times> int) list option"

text \<open>
  \<open>_getVirtualAllocations\<close> returns the list of blocks. For each block it builds
  a debug line with \<open>ctypes.addressof(block)\<close>, and the module does not import
  \<open>ctypes\<close>: with one block or more the call raises NameError, so the list it
  returns is empty.
\<close>

definition getVirtualAllocations :: "Win7HeapWalker \<Rightarrow> error + (int \<times> int) list" where
  "getVirtualAllocations self =
     (let allocated = VirtualAllocdBlocks (heap self)
      in if allocated = [] then Inr [] else Inl NameError)"

definition walker_getChunks :: "Win7HeapWalker \<Rightarrow> (int \<times> int) list" where
  "walker_getChunks self = getChunks (heap self)"

definition walker_getFrontendChunks :: "Win7HeapWalker \<Rightarrow> (int \<times> int) list" where
  "walker_getFrontendChunks self = getFrontendChunks (heap self)"

text \<open>
  \<open>getUserAllocations\<close>. When the list and the set differ in length the argument
  of \<open>log.warning\<close> is built from \<open>lstlen\<close> and \<open>setlen\<close>, names that are not
  defined: NameError. The result is the sorted list of the set (tuples are ordered
  by address, then size) and is kept in \<open>_allocs\<close>.
\<close>

definition getUserAllocations ::
  "Win7HeapWalker \<Rightarrow> error + (int \<times> int) list \<times> Win7HeapWalker" where
  "getUserAllocations self =
     (case allocs self of
        Some a \<Rightarrow> Inr (a, self)
      | None \<Rightarrow>
          (case getVirtualAllocations self of
             Inl e \<Rightarrow> Inl e
           | Inr vallocs \<Rightarrow>
               (let chunks = walker_getChunks self;
                    fth_chunks = walker_getFrontendChunks self;
                    lst = vallocs @ chunks @ fth_chunks;
                    myset = set lst
                in if length lst \<noteq> card myset then Inl NameError
                   else (let a = sorted_list_of_set myset
                         in Inr (a, self\<lparr>allocs := Some a\<rparr>)))))"

subsection \<open>Example values\<close>

text \<open>
  A mapping with the metadata \<open>MemoryDumpMemoryMapping.__init__\<close> takes by default.
\<close>

definition mk_mapping :: "int \<Rightarrow> int \<Rightarrow> MemoryMapping" where
  "mk_mapping s e =
     \<lparr>start = s, end_addr = e, permissions = ''rwx-'', offset = 0, major_device = 0,
      minor_device = 0, inode = 0, pathname = ''MEMORYDUMP''\<rparr>"

definition mk_local_mapping :: "int \<Rightarrow> string \<Rightarrow> LocalMemoryMapping" where
  "mk_local_mapping s buf =
     \<lparr>start = s, end_addr = s + int (length buf), permissions = ''rwx-'', offset = 0,
      major_device = 0, minor_device = 0, inode = 0, pathname = ''MEMORYDUMP'',
      bytebuffer = buf\<rparr>"

definition mk_file_mapping :: "int \<Rightarrow> int \<Rightarrow> int \<Rightarrow> string \<Rightarrow> int \<Rightarrow> FileBackedMemoryMapping" where
  "mk_file_mapping s e off name n =
     \<lparr>start = s, end_addr = e, permissions = ''rwx-'', offset = off,
      major_device = 0, minor_device = 0, inode = 0, pathname = ''MEMORYDUMP'',
      local_mmap = \<lparr>lazy_size = n, memdump_name = name\<rparr>\<rparr>"

definition mk_walker ::
  "HEAP_VIRTUAL_ALLOC_ENTRY list \<Rightarrow> (int \<times> int) list \<Rightarrow> (int \<times> int) list \<Rightarrow> Win7HeapWalker" where
  "mk_walker blocks chunks fth_chunks =
     \<lparr>heap = \<lparr>VirtualAllocdBlocks = blocks, getChunks = chunks, getFrontendChunks = fth_chunks\<rparr>,
      allocs = None\<rparr>"

definition example_fs :: filesystem where
  "example_fs = \<lparr>files = [(''dump'', ''AAAAAAAAAAAAhi'' @ [NUL] @ ''Z'')], handles = [], calls = []\<rparr>"

definition mk_mappings :: "MemoryMapping list \<Rightarrow> (string, int) Mappings" where
  "mk_mappings l = \<lparr>mappings = l, refs = []\<rparr>"

section \<open>Containment and resolution\<close>

lemma get_mapping_for_address_None:
  "get_mapping_for_address ms a = None \<longleftrightarrow> \<not> Mappings_contains ms a"
  by (simp add: get_mapping_for_address_def Mappings_contains_def find_None_iff list_ex_iff Ball_def)

lemma get_mapping_for_address_Some:
  assumes "get_mapping_for_address ms a = Some m"
  shows "m \<in> set (mappings ms) \<and> contains m a"
proof -
  from assms obtain i where "i < length (mappings ms)" and "contains (mappings ms ! i) a"
    and "m = mappings ms ! i"
    unfolding get_mapping_for_address_def find_Some_iff by blast
  then show ?thesis by simp
qed

lemma find_unique:
  assumes "x \<in> set xs" and "P x" and "\<forall>y\<in>set xs. P y \<longrightarrow> y = x"
  shows "List.find P xs = Some x"
  using assms
proof (induction xs)
  case Nil
  then show ?case by simp
next
  case (Cons z zs)
  show ?case
  proof (cases "P z")
    case True
    with Cons.prems(3) have "z = x" by simp
    with True show ?thesis by simp
  next
    case False
    with Cons.prems(1,2) have "x \<in> set zs" by auto
    moreover from Cons.prems(3) have "\<forall>y\<in>set zs. P y \<longrightarrow> y = x" by simp
    ultimately have "List.find P zs = Some x" using Cons.IH Cons.prems(2) by blast
    with False show ?thesis by simp
  qed
qed

text \<open>
  C6. An address with \<open>start \<le> a < end\<close> is contained in the mapping, and
  \<open>get_mapping_for_address\<close> returns that mapping when it belongs to the list and is
  the only mapping of the list that contains the address (the address space's
  invariant: at most one mapping contains an address). The address \<open>end\<close> is not
  contained. Resolution is a total function: it returns the absent value exactly
  when no mapping of the list contains the address.
\<close>

theorem C6_contains_and_resolution:
  fixes ms :: "('t, 'o) Mappings" and m :: MemoryMapping
  shows "(start m \<le> a \<and> a < end_addr m \<longrightarrow> contains m a)
    \<and> (start m \<le> a \<and> a < end_addr m \<and> m \<in> set (mappings ms)
         \<and> (\<forall>m' \<in> set (mappings ms). contains m' a \<longrightarrow> m' = m)
        \<longrightarrow> get_mapping_for_address ms a = Some m)
    \<and> \<not> contains m (end_addr m)
    \<and> ((\<forall>m' \<in> set (mappings ms). \<not> contains m' a) \<longleftrightarrow> get_mapping_for_address ms a = None)"
proof (intro conjI impI)
  assume "start m \<le> a \<and> a < end_addr m"
  then show "contains m a" by (simp add: contains_def)
next
  assume h: "start m \<le> a \<and> a < end_addr m \<and> m \<in> set (mappings ms)
         \<and> (\<forall>m' \<in> set (mappings ms). contains m' a \<longrightarrow> m' = m)"
  then have c: "contains m a" by (simp add: contains_def)
  from h have i: "m \<in> set (mappings ms)" by blast
  from h have u: "\<forall>y\<in>set (mappings ms). contains y a \<longrightarrow> y = m" by blast
  show "get_mapping_for_address ms a = Some m"
    unfolding get_mapping_for_address_def
    by (rule find_unique[where P="\<lambda>m. contains m a", OF i c u])
next
  show "\<not> contains m (end_addr m)" by (simp add: contains_def)
next
  show "(\<forall>m' \<in> set (mappings ms). \<not> contains m' a) \<longleftrightarrow> get_mapping_for_address ms a = None"
    by (simp add: get_mapping_for_address_def find_None_iff Ball_def)
qed

theorem C6_contains_and_resolution_witness:
  "contains (mk_mapping 0x3000 0x4000) 0x3800
   \<and> get_mapping_for_address (mk_mappings [mk_mapping 0x1000 0x2000, mk_mapping 0x3000 0x4000]) 0x3800
       = Some (mk_mapping 0x3000 0x4000)
   \<and> \<not> contains (mk_mapping 0x3000 0x4000) 0x4000
   \<and> get_mapping_for_address (mk_mappings [mk_mapping 0x1000 0x2000, mk_mapping 0x3000 0x4000]) 0x5000 = None"
  using C6_contains_and_resolution [of "mk_mapping 0x3000 0x4000" "0x3800"
          "mk_mappings [mk_mapping 0x1000 0x2000, mk_mapping 0x3000 0x4000]"]
        C6_contains_and_resolution [of "mk_mapping 0x3000 0x4000" "0x5000"
          "mk_mappings [mk_mapping 0x1000 0x2000, mk_mapping 0x3000 0x4000]"]
  by (simp add: mk_mapping_def mk_mappings_def contains_def)

section \<open>Address validation\<close>

lemma len_Inr: "start m \<le> end_addr m \<Longrightarrow> len m = Inr (end_addr m - start m)"
  by (simp add: len_def len_raw_def)

lemma truth_contains: "contains m a \<Longrightarrow> truth m = Inr True"
  by (simp add: truth_def len_def len_raw_def contains_def)

lemma is_valid_address_value_eq:
  "is_valid_address_value ms addr structType =
     (case get_mapping_for_address ms addr of
        None \<Rightarrow> Inr None
      | Some m \<Rightarrow> (case structType of
                     None \<Rightarrow> Inr (Some m)
                   | Some s \<Rightarrow> if addr + s < start m \<or> addr + s > end_addr m then Inr None
                               else Inr (Some m)))"
proof (cases "get_mapping_for_address ms addr")
  case None
  then show ?thesis by (simp add: is_valid_address_value_def)
next
  case (Some m)
  then have "contains m addr" using get_mapping_for_address_Some by blast
  then have "truth m = Inr True" by (rule truth_contains)
  with Some show ?thesis by (simp add: is_valid_address_value_def)
qed

lemma is_valid_address_null:
  "get_pointee_address obj = 0 \<Longrightarrow> is_valid_address ms obj structType = Inr None"
  by (simp add: is_valid_address_def Let_def)

lemma is_valid_address_unmapped:
  "\<not> Mappings_contains ms (get_pointee_address obj) \<Longrightarrow> is_valid_address ms obj structType = Inr None"
  by (simp add: is_valid_address_def Let_def is_valid_address_value_eq get_mapping_for_address_None[symmetric])

lemma is_valid_address_overflow:
  assumes "get_mapping_for_address ms (get_pointee_address obj) = Some m"
    and "get_pointee_address obj + s > end_addr m"
  shows "is_valid_address ms obj (Some s) = Inr None"
  using assms by (simp add: is_valid_address_def Let_def is_valid_address_value_eq)

lemma is_valid_address_mapping:
  assumes "get_pointee_address obj \<noteq> 0"
    and "get_mapping_for_address ms (get_pointee_address obj) = Some m"
    and "structType = None \<or> (\<exists>s. structType = Some s \<and> start m \<le> get_pointee_address obj + s
            \<and> get_pointee_address obj + s \<le> end_addr m)"
  shows "is_valid_address ms obj structType = Inr (Some m)"
  using assms by (auto simp: is_valid_address_def Let_def is_valid_address_value_eq)

text \<open>
  C4. Address validation returns \<open>False\<close> for the address 0, for an address no
  mapping contains and for a structure that ends after the mapping's end, and the
  containing mapping otherwise. The lemmas above show this for \<open>is_valid_address\<close>.
  \<open>is_valid_address_value\<close>, whose docstring also says that it returns \<open>False\<close>
  for the NULL address, has no such test: with a mapping that starts at address 0
  it returns that mapping for the address 0, where \<open>is_valid_address\<close> returns
  \<open>False\<close>.
\<close>

theorem C4_is_valid_address_value_null:
  "is_valid_address_value (mk_mappings [mk_mapping 0 0x1000]) 0 None = Inr (Some (mk_mapping 0 0x1000))
   \<and> is_valid_address (mk_mappings [mk_mapping 0 0x1000]) (IntObj 0) None = Inr None"
  by (simp add: is_valid_address_value_eq is_valid_address_def Let_def get_mapping_for_address_def
      mk_mappings_def mk_mapping_def contains_def)

section \<open>Address translation\<close>

lemma vtop_Inr_iff:
  "vtop m a = Inr r \<longleftrightarrow> r = a - start m \<and> 0 \<le> a - start m \<and> a - start m \<le> end_addr m - start m"
  by (auto simp: vtop_def Let_def len_def len_raw_def)

lemma vtop_fails_iff:
  "(\<exists>e. vtop m a = Inl e) \<longleftrightarrow> a - start m < 0 \<or> a - start m > end_addr m - start m"
  by (auto simp: vtop_def Let_def len_def len_raw_def)

lemma ptov_identity: "start m \<le> end_addr m \<Longrightarrow> ptov m p = Inr p"
  by (simp add: ptov_def vtop_def len_def len_raw_def)

text \<open>
  C9. \<open>vtop\<close> and \<open>ptov\<close> are meant to be inverse of each other on the addresses
  of the mapping, and \<open>vtop\<close> fails exactly when the offset is negative or larger
  than the length (lemma \<open>vtop_fails_iff\<close>). \<open>ptov\<close> subtracts
  \<open>vtop(start)\<close>, which is 0, so it returns its argument (lemma
  \<open>ptov_identity\<close>): in the mapping from 0x1000 to 0x2000 the address 0x1800 has
  the offset 0x800, and \<open>ptov\<close> maps 0x800 to 0x800, not to 0x1800.
\<close>

theorem C9_ptov_vtop_not_inverse:
  "vtop (mk_mapping 0x1000 0x2000) 0x1800 = Inr 0x800
   \<and> ptov (mk_mapping 0x1000 0x2000) 0x800 = Inr 0x800"
  by (simp add: ptov_def vtop_def len_def len_raw_def mk_mapping_def)


section \<open>The book of references\<close>

lemma in_refs_iff: "in_refs r k \<longleftrightarrow> k \<in> fst ` set r"
  by (simp add: in_refs_def map_of_eq_None_iff)











section \<open>The heap walker\<close>

lemma getUserAllocations_memo:
  assumes "getUserAllocations w = Inr (a, w')"
  shows "getUserAllocations w' = Inr (a, w')"
proof (cases "allocs w")
  case (Some b)
  with assms have "a = b" and "w' = w" by (simp_all add: getUserAllocations_def)
  with Some show ?thesis by (simp add: getUserAllocations_def)
next
  case None
  with assms have "allocs w' = Some a"
    by (auto simp: getUserAllocations_def Let_def split: sum.splits if_splits)
  then show ?thesis by (simp add: getUserAllocations_def)
qed

lemma getUserAllocations_duplicates:
  assumes "allocs w = None" and "VirtualAllocdBlocks (heap w) = []"
    and "\<not> distinct (getChunks (heap w) @ getFrontendChunks (heap w))"
  shows "getUserAllocations w = Inl NameError"
proof -
  let ?lst = "getChunks (heap w) @ getFrontendChunks (heap w)"
  have "card (set ?lst) \<noteq> length ?lst"
    using assms(3) card_distinct by blast
  then show ?thesis using assms(1,2)
    by (simp add: getUserAllocations_def getVirtualAllocations_def walker_getChunks_def
        walker_getFrontendChunks_def Let_def del: set_append)
qed

lemma getUserAllocations_virtual_block:
  assumes "allocs w = None" and "VirtualAllocdBlocks (heap w) \<noteq> []"
  shows "getUserAllocations w = Inl NameError"
  using assms by (simp add: getUserAllocations_def getVirtualAllocations_def Let_def)

lemma getUserAllocations_distinct:
  assumes "allocs w = None" and "VirtualAllocdBlocks (heap w) = []"
    and "distinct (getChunks (heap w) @ getFrontendChunks (heap w))"
  shows "getUserAllocations w =
    Inr (sort (getChunks (heap w) @ getFrontendChunks (heap w)),
         w\<lparr>allocs := Some (sort (getChunks (heap w) @ getFrontendChunks (heap w)))\<rparr>)"
proof -
  let ?lst = "getChunks (heap w) @ getFrontendChunks (heap w)"
  have c: "card (set ?lst) = length ?lst" using assms(3) by (rule distinct_card)
  have "sorted_list_of_set (set ?lst) = sort (remdups ?lst)"
    by (rule sorted_list_of_set_sort_remdups)
  also have "\<dots> = sort ?lst" using assms(3) by (simp only: distinct_remdups_id)
  finally have s: "sorted_list_of_set (set ?lst) = sort ?lst" .
  show ?thesis using assms(1,2) c s
    by (simp add: getUserAllocations_def getVirtualAllocations_def walker_getChunks_def
        walker_getFrontendChunks_def Let_def del: set_append)
qed

lemma getUserAllocations_result:
  assumes "allocs w = None" and "getUserAllocations w = Inr (a, w')"
  shows "sorted a \<and> distinct a \<and> sorted (map fst a)
    \<and> set a = set (getChunks (heap w)) \<union> set (getFrontendChunks (heap w))
    \<and> w' = w\<lparr>allocs := Some a\<rparr>"
proof -
  from assms have a: "a = sorted_list_of_set (set (getChunks (heap w) @ getFrontendChunks (heap w)))"
    and w': "w' = w\<lparr>allocs := Some a\<rparr>"
    by (auto simp: getUserAllocations_def getVirtualAllocations_def walker_getChunks_def
        walker_getFrontendChunks_def Let_def split: sum.splits if_splits simp del: set_append)
  have "sorted a" and "distinct a" unfolding a by simp_all
  moreover have "sorted (map fst a)"
    using \<open>sorted a\<close> by (induction a) (auto simp: less_eq_prod_def)
  moreover have "set a = set (getChunks (heap w)) \<union> set (getFrontendChunks (heap w))"
    unfolding a by simp
  ultimately show ?thesis using w' by simp
qed

text \<open>
  C1. \<open>getUserAllocations\<close> is to return the (address, size) pairs of the three
  sources, without duplicates and sorted by address, and to return the same list
  when called again. It does so when no pair occurs twice and the heap has no
  virtually allocated block (lemmas \<open>getUserAllocations_distinct\<close>,
  \<open>getUserAllocations_result\<close>, \<open>getUserAllocations_memo\<close>). With a chunk that
  both \<open>getChunks\<close> and \<open>getFrontendChunks\<close> report, and with a heap that has
  one virtually allocated block, the call raises NameError and keeps no result.
\<close>

theorem C1_getUserAllocations_raises:
  "getUserAllocations (mk_walker [] [(0x1000, 64), (0x1040, 64)] [(0x1040, 64)]) = Inl NameError
   \<and> getUserAllocations
        (mk_walker [\<lparr>block_address = 0x500000, CommitSize = 0x1000, ReserveSize = 0x2000\<rparr>] [] [])
      = Inl NameError"
  by (simp add: getUserAllocations_duplicates getUserAllocations_virtual_block mk_walker_def)

text \<open>
  C8. When the concatenated list is longer than its set, \<open>getUserAllocations\<close> is
  to log a warning and return the sorted set. Building the warning's text raises
  NameError (lemma \<open>getUserAllocations_duplicates\<close>): the chunk (0x2000, 32)
  reported by both sources makes the call fail.
\<close>

theorem C8_mismatch_raises:
  "getUserAllocations (mk_walker [] [(0x2000, 32)] [(0x2000, 32)]) = Inl NameError"
  by (simp add: getUserAllocations_def getVirtualAllocations_def walker_getChunks_def
      walker_getFrontendChunks_def mk_walker_def Let_def)


section \<open>Reading a C string\<close>

lemma readCString_first_chunk:
  assumes "readBytes address chunk_length = Inr data0" and "max_size \<le> chunk_length"
  shows "readCString (Suc n) readBytes address max_size chunk_length =
    ([(address, chunk_length)],
     Done (py_slice_to (if NUL \<in> set data0 then takeWhile (\<lambda>c. c \<noteq> NUL) data0 else data0) max_size, True))"
  using assms by (simp add: readCString_def Let_def)

text \<open>
  C2. \<open>readCString\<close> stops at the first NUL of a chunk or after \<open>max_size\<close> bytes,
  and \<open>truncated\<close> is to tell the two apart. With the chunk length of 256 that the
  function has by default, a NUL at byte 10 and \<open>max_size = 100\<close>, it returns the
  10 bytes before the NUL and \<open>truncated = True\<close>: the test
  \<open>max_size <= size + chunk_length\<close> comes before the test of \<open>done\<close> and sets
  the flag whenever \<open>max_size\<close> is at most the chunk length (lemma
  \<open>readCString_first_chunk\<close>).
\<close>

theorem C2_truncated_with_terminator:
  "readCString (Suc n) (readBufferBytes (mk_local_mapping 0x1000 (''0123456789'' @ [NUL] @ ''tail!'')))
     0x1000 100 256 = ([(0x1000, 256)], Done (''0123456789'', True))"
  by (simp add: readCString_def readBufferBytes_def mk_local_mapping_def py_slice_def
      py_index_def py_slice_to_def NUL_def Let_def)

lemma readCString_max_size_5:
  "readCString (Suc n) (readBufferBytes (mk_local_mapping 0x1000 (''0123456789'' @ [NUL] @ ''tail!'')))
     0x1000 5 256 = ([(0x1000, 256)], Done (''01234'', True))"
  by (simp add: readCString_def readBufferBytes_def mk_local_mapping_def py_slice_def
      py_index_def py_slice_to_def NUL_def Let_def)

lemma readCString_chunk_16:
  "readCString (Suc n) (readBufferBytes (mk_local_mapping 0x1000 (''0123456789'' @ [NUL] @ ''tail!'')))
     0x1000 100 16 = ([(0x1000, 16)], Done (''0123456789'', False))"
  by (simp add: readCString_def readBufferBytes_def mk_local_mapping_def py_slice_def
      py_index_def py_slice_to_def NUL_def Let_def)

lemma readCString_loop_reads:
  "fst (readCString_loop fuel readBytes max_size chunk_length string size' address) =
     map (\<lambda>k. (address + int k * chunk_length, chunk_length))
       [0 ..< length (fst (readCString_loop fuel readBytes max_size chunk_length string size' address))]"
proof (induction fuel arbitrary: string size' address)
  case 0
  show ?case by simp
next
  case (Suc fuel)
  show ?case
  proof (cases "readBytes address chunk_length")
    case (Inl e)
    then show ?thesis by simp
  next
    case (Inr data0)
    let ?data = "if NUL \<in> set data0 then takeWhile (\<lambda>c. c \<noteq> NUL) data0 else data0"
    show ?thesis
    proof (cases "max_size \<le> size' + chunk_length \<or> NUL \<in> set data0")
      case True
      with Inr show ?thesis by (auto simp: Let_def)
    next
      case False
      let ?rec = "readCString_loop fuel readBytes max_size chunk_length (string @ [data0])
                    (size' + chunk_length) (address + chunk_length)"
      from False Inr have eq: "readCString_loop (Suc fuel) readBytes max_size chunk_length string size' address
          = ((address, chunk_length) # fst ?rec, snd ?rec)"
        by (simp add: Let_def split: prod.splits)
      have ih: "fst ?rec = map (\<lambda>k. (address + chunk_length + int k * chunk_length, chunk_length))
          [0 ..< length (fst ?rec)]"
        by (rule Suc.IH)
      have "map (\<lambda>k. (address + int k * chunk_length, chunk_length)) [0 ..< Suc (length (fst ?rec))]
          = (address, chunk_length)
            # map (\<lambda>k. (address + int (Suc k) * chunk_length, chunk_length)) [0 ..< length (fst ?rec)]"
        by (simp only: map_upt_Suc) simp
      also have "\<dots> = (address, chunk_length) # fst ?rec"
        by (subst (2) ih) (simp add: algebra_simps)
      finally have m: "map (\<lambda>k. (address + int k * chunk_length, chunk_length))
          [0 ..< Suc (length (fst ?rec))] = (address, chunk_length) # fst ?rec" .
      have lhs: "fst (readCString_loop (Suc fuel) readBytes max_size chunk_length string size' address)
          = (address, chunk_length) # fst ?rec"
        by (simp only: eq fst_conv)
      have len: "length (fst (readCString_loop (Suc fuel) readBytes max_size chunk_length string size' address))
          = Suc (length (fst ?rec))"
        by (simp only: lhs list.size)
      show ?thesis unfolding len using m lhs by (simp only:)
    qed
  qed
qed

text \<open>
  C10. Every call of \<open>readBytes\<close> that \<open>readCString\<close> makes asks for
  \<open>chunk_length\<close> bytes, at \<open>address\<close>, \<open>address + chunk_length\<close>, and so on,
  whatever \<open>max_size\<close> and the end of the mapping are. In a file-backed mapping
  from 0x1000 to 0x1010 that holds the string \<open>hi\<close> and its NUL at 0x100c, with
  \<open>max_size = 4\<close> and \<open>chunk_length = 8\<close>, 4 bytes are left before the end of the
  mapping; \<open>_vtop\<close> accepts the address, and the read of 8 bytes at the file
  offset 12 goes 4 bytes past the end of the mapping.
\<close>

theorem C10_readCString_reads_whole_chunks:
  "fst (readCString fuel readBytes address max_size chunk_length) =
     map (\<lambda>k. (address + int k * chunk_length, chunk_length))
       [0 ..< length (fst (readCString fuel readBytes address max_size chunk_length))]
   \<and> readCString 1 (\<lambda>a n. fst (read_bytes example_fs (mk_file_mapping 0x1000 0x1010 0 ''dump'' 16) a n))
        0x100c 4 8 = ([(0x100c, 8)], Done (''hi'', True))
   \<and> read_bytes example_fs (mk_file_mapping 0x1000 0x1010 0 ''dump'' 16) 0x100c 8
       = (Inr (''hi'' @ [NUL] @ ''Z''),
          example_fs\<lparr>calls := [OpOpen ''dump'', OpSeek 12, OpRead 8, OpClose]\<rparr>)
   \<and> end_addr (mk_file_mapping 0x1000 0x1010 0 ''dump'' 16) - 0x100c < 8
   \<and> 4 \<le> end_addr (mk_file_mapping 0x1000 0x1010 0 ''dump'' 16) - 0x100c
   \<and> 0x100c + int (length ''hi'') + 1 \<le> end_addr (mk_file_mapping 0x1000 0x1010 0 ''dump'' 16)
   \<and> end_addr (mk_file_mapping 0x1000 0x1010 0 ''dump'' 16) < 0x100c + 8"
proof -
  have r: "read_bytes example_fs (mk_file_mapping 0x1000 0x1010 0 ''dump'' 16) 0x100c 8
       = (Inr (''hi'' @ [NUL] @ ''Z''),
          example_fs\<lparr>calls := [OpOpen ''dump'', OpSeek 12, OpRead 8, OpClose]\<rparr>)"
    by (simp add: read_bytes_def LazyMmap_getitem_slice_def LazyMmap_get_def py_open_def py_seek_def
      py_read_def py_close_def FileBacked_vtop_def len_def len_raw_def Let_def example_fs_def
      mk_file_mapping_def fresh_fd_def)
  have c: "readCString 1 (\<lambda>a n. fst (read_bytes example_fs (mk_file_mapping 0x1000 0x1010 0 ''dump'' 16) a n))
        0x100c 4 8 = ([(0x100c, 8)], Done (''hi'', True))"
    by (simp add: readCString_def r py_slice_to_def py_index_def NUL_def Let_def)
  have t: "fst (readCString fuel readBytes address max_size chunk_length) =
     map (\<lambda>k. (address + int k * chunk_length, chunk_length))
       [0 ..< length (fst (readCString fuel readBytes address max_size chunk_length))]"
    unfolding readCString_def by (rule readCString_loop_reads)
  show ?thesis using r c t by (simp add: mk_file_mapping_def)
qed


section \<open>Reading from the dump file\<close>

lemma fold_max_ge: "(a::nat) \<le> fold max xs a"
  by (induction xs arbitrary: a) (auto intro: order_trans[OF max.cobounded2])

lemma fold_max_mem: "(x::nat) \<in> set xs \<Longrightarrow> x \<le> fold max xs a"
proof (induction xs arbitrary: a)
  case Nil
  then show ?case by simp
next
  case (Cons y ys)
  show ?case
  proof (cases "x = y")
    case True
    have "max y a \<le> fold max ys (max y a)" by (rule fold_max_ge)
    with True show ?thesis by simp
  next
    case False
    with Cons.prems have "x \<in> set ys" by simp
    then show ?thesis by (simp add: Cons.IH)
  qed
qed

lemma fresh_fd_fresh: "fresh_fd hs \<notin> fst ` set hs"
proof
  assume "fresh_fd hs \<in> fst ` set hs"
  then have "fresh_fd hs \<in> set (map fst hs)" by simp
  then have "fresh_fd hs \<le> fold max (map fst hs) 0" by (rule fold_max_mem)
  then show False by (simp add: fresh_fd_def)
qed

lemma LazyMmap_init_closes:
  assumes "LazyMmap_init fs memdump = Inr (lm, fs')"
  shows "map_of (handles fs') memdump = None
    \<and> (\<exists>content. map_of (files fs) (memdump_name lm) = Some content
          \<and> lazy_size lm = int (length content))"
proof -
  from assms obtain name i content fs2 where
    h: "map_of (handles fs) memdump = Some (name, i)"
    and f: "map_of (files fs) name = Some content"
    and lm: "lm = \<lparr>lazy_size = int (length content), memdump_name = name\<rparr>"
    and fs': "fs' = py_close fs2 memdump"
    by (auto simp: LazyMmap_init_def split: option.splits sum.splits prod.splits)
  have "map_of (handles fs') memdump = None"
    by (simp add: fs' py_close_def delete_conv)
  with f lm show ?thesis by simp
qed

lemma LazyMmap_get_ok:
  assumes "map_of (files fs) (memdump_name self) = Some content" and "0 \<le> offs" and "0 \<le> size'"
  shows "LazyMmap_get fs self offs size' =
    (Inr (take (nat size') (drop (nat offs) content)),
     fs\<lparr>calls := calls fs @ [OpOpen (memdump_name self), OpSeek offs, OpRead size', OpClose]\<rparr>)"
proof -
  have "AList.delete (fresh_fd (handles fs)) (handles fs) = handles fs"
    by (rule delete_id) (rule fresh_fd_fresh)
  then show ?thesis using assms
    by (simp add: LazyMmap_get_def py_open_def py_seek_def py_read_def py_close_def Let_def)
qed

text \<open>
  What \<open>read_bytes\<close> does on a read it accepts (the offset of the address in the
  mapping between 0 and the length of the mapping, a size that is not negative,
  the dump file present): the file is opened by its name, the position is set to
  the offset of the address in the mapping, at most \<open>size\<close> bytes are read from
  there, and the file is closed; the open file objects are the same after the call
  as before.
\<close>

lemma read_bytes_reopens_and_closes:
  assumes "map_of (files fs) (memdump_name (local_mmap m)) = Some content"
    and "0 \<le> vaddr - start m" and "vaddr - start m \<le> end_addr m - start m" and "0 \<le> size'"
  shows "read_bytes fs m vaddr size' =
    (Inr (take (nat size') (drop (nat (vaddr - start m)) content)),
     fs\<lparr>calls := calls fs @ [OpOpen (memdump_name (local_mmap m)), OpSeek (vaddr - start m),
                               OpRead size', OpClose]\<rparr>)"
proof -
  have "FileBacked_vtop m vaddr = Inr (vaddr - start m)"
    using assms(2,3) by (simp add: FileBacked_vtop_def len_def len_raw_def Let_def)
  then show ?thesis using assms(1,2,4)
    by (simp add: read_bytes_def LazyMmap_getitem_slice_def LazyMmap_get_ok)
qed

lemma read_bytes_reopens_and_closes_example:
  "read_bytes example_fs (mk_file_mapping 0x8000 0x8010 0x1000 ''dump'' 16) 0x8004 2 =
     (Inr ''AA'', example_fs\<lparr>calls := [OpOpen ''dump'', OpSeek 4, OpRead 2, OpClose]\<rparr>)"
  using read_bytes_reopens_and_closes [of example_fs "mk_file_mapping 0x8000 0x8010 0x1000 ''dump'' 16"
      "''AAAAAAAAAAAAhi'' @ [NUL] @ ''Z''" "0x8004" 2]
  by (simp add: example_fs_def mk_file_mapping_def)

text \<open>
  C7. Every read against a file-backed mapping is to reopen the dump file by its
  name, seek to the offset of the mapping in the file plus the offset of the
  address in the mapping, read, and close, keeping no file open. The class
  documents \<open>offset\<close> as the offset in the memory dump file from which \<open>start\<close>
  is mapped. The file is reopened and closed (lemma
  \<open>read_bytes_reopens_and_closes\<close>), but the position is the offset of the address
  in the mapping alone: the \<open>offset\<close> of the mapping takes no part. A mapping from
  0x8000 with \<open>offset = 0x1000\<close>, read at 0x8004, seeks to 4 and never to 0x1004.
\<close>

theorem C7_seek_ignores_offset:
  "calls (snd (read_bytes example_fs (mk_file_mapping 0x8000 0x8010 0x1000 ''dump'' 16) 0x8004 2))
     = [OpOpen ''dump'', OpSeek 4, OpRead 2, OpClose]
   \<and> OpSeek (offset (mk_file_mapping 0x8000 0x8010 0x1000 ''dump'' 16)
               + (0x8004 - start (mk_file_mapping 0x8000 0x8010 0x1000 ''dump'' 16)))
       \<notin> set (calls (snd (read_bytes example_fs (mk_file_mapping 0x8000 0x8010 0x1000 ''dump'' 16) 0x8004 2)))"
  by (simp add: read_bytes_def LazyMmap_getitem_slice_def LazyMmap_get_def py_open_def py_seek_def
      py_read_def py_close_def FileBacked_vtop_def len_def len_raw_def Let_def example_fs_def
      mk_file_mapping_def fresh_fd_def)



section \<open>Searching a mapping\<close>

lemma prefix_iff_take: "prefix xs ys \<longleftrightarrow> xs = take (length xs) ys"
proof
  assume "prefix xs ys"
  then obtain zs where "ys = xs @ zs" by (auto simp: prefix_def)
  then show "xs = take (length xs) ys" by simp
next
  assume "xs = take (length xs) ys"
  then have "prefix xs ys \<longleftrightarrow> prefix (take (length xs) ys) ys" by simp
  then show "prefix xs ys" by (simp add: take_is_prefix)
qed

lemma prefix_drop_take:
  assumes "i + length needle \<le> q"
  shows "prefix needle (drop i (take q xs)) \<longleftrightarrow> prefix needle (drop i xs)"
proof -
  have "take (length needle) (drop i (take q xs)) = take (length needle) (drop i xs)"
    using assms by (simp add: drop_take min_def)
  then show ?thesis by (simp add: prefix_iff_take)
qed

lemma py_find_cases:
  assumes "needle \<noteq> []"
  shows "(py_find data needle = - 1 \<and> (\<forall>i. \<not> prefix needle (drop i data)))
    \<or> (\<exists>k. py_find data needle = int k \<and> prefix needle (drop k data)
           \<and> (\<forall>i<k. \<not> prefix needle (drop i data)))"
proof (induction data)
  case Nil
  then show ?case using assms by simp
next
  case (Cons x xs)
  show ?case
  proof (cases "prefix needle (x # xs)")
    case True
    then have "py_find (x # xs) needle = int 0 \<and> prefix needle (drop 0 (x # xs))
        \<and> (\<forall>i<0. \<not> prefix needle (drop i (x # xs)))" by simp
    then show ?thesis by blast
  next
    case False
    from Cons.IH show ?thesis
    proof
      assume h: "py_find xs needle = - 1 \<and> (\<forall>i. \<not> prefix needle (drop i xs))"
      have "\<not> prefix needle (drop i (x # xs))" for i
        using h False by (cases i) simp_all
      moreover have "py_find (x # xs) needle = - 1" using h False by simp
      ultimately show ?thesis by blast
    next
      assume "\<exists>k. py_find xs needle = int k \<and> prefix needle (drop k xs)
           \<and> (\<forall>i<k. \<not> prefix needle (drop i xs))"
      then obtain k where k: "py_find xs needle = int k" "prefix needle (drop k xs)"
        "\<forall>i<k. \<not> prefix needle (drop i xs)" by blast
      have "py_find (x # xs) needle = int (Suc k)" using k(1) False by simp
      moreover have "prefix needle (drop (Suc k) (x # xs))" using k(2) by simp
      moreover have "\<not> prefix needle (drop i (x # xs))" if "i < Suc k" for i
        using that k(3) False by (cases i) simp_all
      ultimately show ?thesis by blast
    qed
  qed
qed

lemma occurrences_short:
  "length xs < length needle \<Longrightarrow> nonoverlapping_occurrences needle pos xs = []"
  by (simp add: nonoverlapping_occurrences.simps)

lemma occurrences_hit:
  assumes "needle \<noteq> []" and "prefix needle xs"
  shows "nonoverlapping_occurrences needle pos xs =
    pos # nonoverlapping_occurrences needle (pos + int (length needle)) (drop (length needle) xs)"
proof -
  have "length needle \<le> length xs" using assms(2) by (rule prefix_length_le)
  then show ?thesis using assms
    by (subst nonoverlapping_occurrences.simps) simp
qed

lemma occurrences_miss:
  assumes "\<not> prefix needle xs"
  shows "nonoverlapping_occurrences needle pos xs = nonoverlapping_occurrences needle (pos + 1) (tl xs)"
proof (cases "needle = [] \<or> length xs < length needle")
  case True
  then have "needle = [] \<or> length (tl xs) < length needle" by auto
  with True show ?thesis by (simp add: nonoverlapping_occurrences.simps)
next
  case False
  with assms show ?thesis by (subst nonoverlapping_occurrences.simps) simp
qed

lemma occurrences_skip:
  assumes "\<forall>i<k. \<not> prefix needle (drop i xs)"
  shows "nonoverlapping_occurrences needle pos xs =
    nonoverlapping_occurrences needle (pos + int k) (drop k xs)"
  using assms
proof (induction k arbitrary: pos xs)
  case 0
  show ?case by simp
next
  case (Suc k)
  from Suc.prems have "\<not> prefix needle xs" by force
  then have "nonoverlapping_occurrences needle pos xs =
      nonoverlapping_occurrences needle (pos + 1) (tl xs)" by (rule occurrences_miss)
  also have "\<dots> = nonoverlapping_occurrences needle (pos + 1 + int k) (drop k (tl xs))"
  proof (rule Suc.IH)
    show "\<forall>i<k. \<not> prefix needle (drop i (tl xs))"
      using Suc.prems by (auto simp: drop_Suc[symmetric] simp del: drop_Suc)
  qed
  finally show ?case by (simp add: drop_Suc add.assoc)
qed


lemma search_loop_short:
  "remaining < int (length bytestr) \<Longrightarrow>
   search_loop (Suc fuel) readBytes bytestr buf_len remaining covered = ([], Done ())"
  by (simp add: Let_def)

lemma search_loop_miss:
  assumes "int (length bytestr) \<le> remaining"
    and "requested = (if remaining > buf_len then buf_len else remaining)"
    and "readBytes covered requested = Inr data" and "data \<noteq> []"
    and "py_find data bytestr = - 1"
  shows "search_loop (Suc fuel) readBytes bytestr buf_len remaining covered =
    search_loop fuel readBytes bytestr buf_len
      (remaining - (requested - int (length bytestr) + 1))
      (covered + (requested - int (length bytestr) + 1))"
proof -
  from assms(2,3) have "readBytes covered (if remaining > buf_len then buf_len else remaining) = Inr data"
    by simp
  then show ?thesis using assms(1,2,4,5) by (simp add: Let_def)
qed

lemma search_loop_hit:
  assumes "int (length bytestr) \<le> remaining"
    and "requested = (if remaining > buf_len then buf_len else remaining)"
    and "readBytes covered requested = Inr data" and "data \<noteq> []"
    and "py_find data bytestr = offs" and "offs \<noteq> - 1"
    and "search_loop fuel readBytes bytestr buf_len
      (remaining - (offs + int (length bytestr))) (covered + (offs + int (length bytestr))) = (ys, r)"
  shows "search_loop (Suc fuel) readBytes bytestr buf_len remaining covered = ((covered + offs) # ys, r)"
proof -
  from assms(2,3) have "readBytes covered (if remaining > buf_len then buf_len else remaining) = Inr data"
    by simp
  then show ?thesis using assms(1,4,5,6,7) by (simp add: Let_def)
qed

lemma search_loop_correct:
  fixes m :: "'a MemoryMapping_scheme"
  assumes ne: "needle \<noteq> []"
    and B: "int (length needle) \<le> B"
    and len: "int (length content) = end_addr m - start m"
    and rd: "\<And>a n. start m \<le> a \<Longrightarrow> 0 < n \<Longrightarrow> a + n \<le> end_addr m \<Longrightarrow>
               readBytes a n = Inr (take (nat n) (drop (nat (a - start m)) content))"
    and c: "c \<le> length content"
    and fuel: "length content - c < fuel"
  shows "search_loop fuel readBytes needle B (int (length content) - int c) (start m + int c)
     = (nonoverlapping_occurrences needle (start m + int c) (drop c content), Done ())"
  using c fuel
proof (induction fuel arbitrary: c)
  case 0
  then show ?case by simp
next
  case (Suc fuel)
  let ?xs = "drop c content"
  let ?L = "length needle"
  let ?rem = "int (length content) - int c"
  let ?cov = "start m + int c"
  have remlen: "?rem = int (length ?xs)" using Suc.prems(1) by simp
  have Lpos: "1 \<le> int ?L" using ne by (cases needle) simp_all
  show ?case
  proof (cases "int ?L \<le> ?rem")
    case False
    then have "length ?xs < ?L" using remlen by linarith
    then have "nonoverlapping_occurrences needle ?cov ?xs = []" by (rule occurrences_short)
    moreover from False have "search_loop (Suc fuel) readBytes needle B ?rem ?cov = ([], Done ())"
      by (intro search_loop_short) linarith
    ultimately show ?thesis by simp
  next
    case True
    define requested where "requested = (if ?rem > B then B else ?rem)"
    define q where "q = nat requested"
    have req1: "int ?L \<le> requested" using True B by (simp add: requested_def)
    have req2: "requested \<le> ?rem" by (simp add: requested_def)
    have req3: "0 < requested" using req1 Lpos by linarith
    note req = req1 req2 req3
    have q3: "int q = requested" using req3 by (simp add: q_def)
    have q1: "?L \<le> q" using req1 q3 by linarith
    have q2: "q \<le> length ?xs" using req2 q3 remlen by linarith
    note q = q1 q2 q3
    have data: "readBytes ?cov requested = Inr (take q ?xs)"
    proof -
      have "readBytes ?cov requested = Inr (take (nat requested) (drop (nat (?cov - start m)) content))"
      proof (rule rd)
        show "start m \<le> ?cov" by simp
        show "0 < requested" by (rule req(3))
        show "?cov + requested \<le> end_addr m" using req(2) len by linarith
      qed
      then show ?thesis by (simp add: q_def)
    qed
    have "length (take q ?xs) = q" using q2 by simp
    then have "0 < length (take q ?xs)" using q1 Lpos by linarith
    then have nonempty: "take q ?xs \<noteq> []" by simp
    from py_find_cases[OF ne, of "take q ?xs"] show ?thesis
    proof (elim disjE conjE exE)
      assume f: "py_find (take q ?xs) needle = - 1"
        and no: "\<forall>i. \<not> prefix needle (drop i (take q ?xs))"
      define k where "k = q - ?L + 1"
      have k1: "0 < k" by (simp add: k_def)
      have k3: "int k = requested - int ?L + 1" using q1 q3 by (simp add: k_def of_nat_diff)
      have k2: "k \<le> q" using k3 q3 Lpos by linarith
      note k = k1 k2 k3
      have noxs: "\<forall>i<k. \<not> prefix needle (drop i ?xs)"
      proof (intro allI impI)
        fix i assume "i < k"
        then have "i + ?L \<le> q" using q1 by (simp add: k_def)
        then have "prefix needle (drop i (take q ?xs)) \<longleftrightarrow> prefix needle (drop i ?xs)"
          by (rule prefix_drop_take)
        with no show "\<not> prefix needle (drop i ?xs)" by blast
      qed
      have "search_loop (Suc fuel) readBytes needle B ?rem ?cov =
          search_loop fuel readBytes needle B (?rem - (requested - int ?L + 1))
            (?cov + (requested - int ?L + 1))"
        using True requested_def data nonempty f by (rule search_loop_miss)
      also have "\<dots> = search_loop fuel readBytes needle B
            (int (length content) - int (c + k)) (start m + int (c + k))"
      proof -
        have a1: "?rem - (requested - int ?L + 1) = int (length content) - int (c + k)"
          using k3 by linarith
        have a2: "?cov + (requested - int ?L + 1) = start m + int (c + k)"
          using k3 by linarith
        show ?thesis by (simp only: a1 a2)
      qed
      also have "\<dots> = (nonoverlapping_occurrences needle (start m + int (c + k))
            (drop (c + k) content), Done ())"
      proof (rule Suc.IH)
        show ck: "c + k \<le> length content" using k2 q2 Suc.prems(1) by simp
        show "length content - (c + k) < fuel" using ck k1 Suc.prems(2) by linarith
      qed
      also have "nonoverlapping_occurrences needle (start m + int (c + k)) (drop (c + k) content)
          = nonoverlapping_occurrences needle (?cov + int k) (drop k ?xs)"
      proof -
        have p: "start m + int (c + k) = ?cov + int k" by simp
        have d: "drop (c + k) content = drop k ?xs" by (simp add: add.commute)
        show ?thesis by (simp only: p d)
      qed
      also have "\<dots> = nonoverlapping_occurrences needle ?cov ?xs"
        by (rule occurrences_skip[OF noxs, symmetric])
      finally show ?thesis .
    next
      fix k
      assume f: "py_find (take q ?xs) needle = int k"
        and hit: "prefix needle (drop k (take q ?xs))"
        and no: "\<forall>i<k. \<not> prefix needle (drop i (take q ?xs))"
      have "?L \<le> length (drop k (take q ?xs))" using hit by (rule prefix_length_le)
      then have "?L \<le> q - k" using q2 by simp
      then have kq: "k + ?L \<le> q" using Lpos by linarith
      have hitxs: "prefix needle (drop k ?xs)"
        using hit prefix_drop_take[OF kq, of ?xs] by blast
      have noxs: "\<forall>i<k. \<not> prefix needle (drop i ?xs)"
      proof (intro allI impI)
        fix i assume "i < k"
        then have "i + ?L \<le> q" using kq by simp
        then have "prefix needle (drop i (take q ?xs)) \<longleftrightarrow> prefix needle (drop i ?xs)"
          by (rule prefix_drop_take)
        with no \<open>i < k\<close> show "\<not> prefix needle (drop i ?xs)" by blast
      qed
      have ih: "search_loop fuel readBytes needle B
            (int (length content) - int (c + (k + ?L))) (start m + int (c + (k + ?L)))
          = (nonoverlapping_occurrences needle (start m + int (c + (k + ?L)))
            (drop (c + (k + ?L)) content), Done ())"
      proof (rule Suc.IH)
        show ck: "c + (k + ?L) \<le> length content" using kq q2 Suc.prems(1) by simp
        show "length content - (c + (k + ?L)) < fuel" using ck Lpos Suc.prems(2) by linarith
      qed
      have ne1: "int k \<noteq> - 1" by simp
      have rec: "search_loop fuel readBytes needle B
            (?rem - (int k + int ?L)) (?cov + (int k + int ?L))
          = (nonoverlapping_occurrences needle (start m + int (c + (k + ?L)))
            (drop (c + (k + ?L)) content), Done ())"
      proof -
        have a1: "?rem - (int k + int ?L) = int (length content) - int (c + (k + ?L))"
          by simp
        have a2: "?cov + (int k + int ?L) = start m + int (c + (k + ?L))"
          by simp
        show ?thesis using ih by (simp only: a1 a2)
      qed
      have "search_loop (Suc fuel) readBytes needle B ?rem ?cov =
          ((?cov + int k) # nonoverlapping_occurrences needle (start m + int (c + (k + ?L)))
            (drop (c + (k + ?L)) content), Done ())"
        using True requested_def data nonempty f ne1 rec by (rule search_loop_hit)
      moreover have "nonoverlapping_occurrences needle ?cov ?xs =
          (?cov + int k) # nonoverlapping_occurrences needle (start m + int (c + (k + ?L)))
            (drop (c + (k + ?L)) content)"
      proof -
        have "nonoverlapping_occurrences needle ?cov ?xs =
            nonoverlapping_occurrences needle (?cov + int k) (drop k ?xs)"
          by (rule occurrences_skip[OF noxs])
        also have "\<dots> = (?cov + int k) # nonoverlapping_occurrences needle
            (?cov + int k + int ?L) (drop ?L (drop k ?xs))"
          by (rule occurrences_hit[OF ne hitxs])
        also have "\<dots> = (?cov + int k) # nonoverlapping_occurrences needle
            (start m + int (c + (k + ?L))) (drop (c + (k + ?L)) content)"
        proof -
          have p: "?cov + int k + int ?L = start m + int (c + (k + ?L))" by simp
          have d: "drop ?L (drop k ?xs) = drop (c + (k + ?L)) content"
            by (simp add: ac_simps)
          show ?thesis by (simp only: p d)
        qed
        finally show ?thesis .
      qed
      ultimately show ?thesis by simp
    qed
  qed
qed


lemma occurrences_sound:
  "p \<in> set (nonoverlapping_occurrences needle pos xs) \<Longrightarrow>
   pos \<le> p \<and> prefix needle (drop (nat (p - pos)) xs)"
proof (induction needle pos xs rule: nonoverlapping_occurrences.induct)
  case (1 needle pos xs)
  show ?case
  proof (cases "needle = [] \<or> length xs < length needle")
    case True
    with "1.prems" show ?thesis by (simp add: nonoverlapping_occurrences.simps)
  next
    case False
    show ?thesis
    proof (cases "prefix needle xs")
      case True
      from False True "1.prems"
      have "p = pos \<or> p \<in> set (nonoverlapping_occurrences needle (pos + int (length needle))
              (drop (length needle) xs))"
        by (subst (asm) nonoverlapping_occurrences.simps) simp
      then show ?thesis
      proof
        assume "p = pos"
        with True show ?thesis by simp
      next
        assume "p \<in> set (nonoverlapping_occurrences needle (pos + int (length needle))
              (drop (length needle) xs))"
        with "1.IH"(1)[OF False True]
        have le: "pos + int (length needle) \<le> p"
          and pre: "prefix needle (drop (nat (p - (pos + int (length needle)))) (drop (length needle) xs))"
          by blast+
        have "nat (p - (pos + int (length needle))) + length needle = nat (p - pos)"
          using le by linarith
        with pre have "prefix needle (drop (nat (p - pos)) xs)" by simp
        with le show ?thesis by simp
      qed
    next
      case nohit: False
      from False nohit "1.prems"
      have "p \<in> set (nonoverlapping_occurrences needle (pos + 1) (tl xs))"
        by (subst (asm) nonoverlapping_occurrences.simps) simp
      with "1.IH"(2)[OF False nohit]
      have le: "pos + 1 \<le> p" and pre: "prefix needle (drop (nat (p - (pos + 1))) (tl xs))"
        by blast+
      have "Suc (nat (p - (pos + 1))) = nat (p - pos)" using le by linarith
      moreover have "drop (nat (p - (pos + 1))) (tl xs) = drop (Suc (nat (p - (pos + 1)))) xs"
        by (simp add: drop_Suc)
      ultimately have "prefix needle (drop (nat (p - pos)) xs)" using pre by simp
      with le show ?thesis by simp
    qed
  qed
qed

lemma occurrences_complete:
  "needle \<noteq> [] \<Longrightarrow> prefix needle (drop i xs) \<Longrightarrow>
    \<exists>p \<in> set (nonoverlapping_occurrences needle pos xs).
       p \<le> pos + int i \<and> pos + int i < p + int (length needle)"
proof (induction needle pos xs arbitrary: i rule: nonoverlapping_occurrences.induct)
  case (1 needle pos xs)
  have ne: "needle \<noteq> []" by (rule "1.prems"(1))
  have pre: "prefix needle (drop i xs)" by (rule "1.prems"(2))
  have Lpos: "1 \<le> int (length needle)" using ne by (cases needle) simp_all
  have "length needle \<le> length (drop i xs)" using pre by (rule prefix_length_le)
  then have long: "i + length needle \<le> length xs" using Lpos by simp
  then have cond: "\<not> (needle = [] \<or> length xs < length needle)" using ne by simp
  show ?case
  proof (cases "prefix needle xs")
    case True
    have eq: "nonoverlapping_occurrences needle pos xs =
        pos # nonoverlapping_occurrences needle (pos + int (length needle)) (drop (length needle) xs)"
      using ne True by (rule occurrences_hit)
    show ?thesis
    proof (cases "i < length needle")
      case True
      then have "pos \<le> pos + int i \<and> pos + int i < pos + int (length needle)" by simp
      then show ?thesis unfolding eq by simp
    next
      case False
      then have "drop i xs = drop (i - length needle) (drop (length needle) xs)" by simp
      with pre have "prefix needle (drop (i - length needle) (drop (length needle) xs))"
        by simp
      from "1.IH"(1)[OF cond True ne this]
      obtain p where p: "p \<in> set (nonoverlapping_occurrences needle (pos + int (length needle))
              (drop (length needle) xs))"
        "p \<le> pos + int (length needle) + int (i - length needle)"
        "pos + int (length needle) + int (i - length needle) < p + int (length needle)"
        by blast
      have "pos + int (length needle) + int (i - length needle) = pos + int i"
        using False by simp
      with p(2,3) have "p \<le> pos + int i" and "pos + int i < p + int (length needle)"
        by simp_all
      moreover have "p \<in> set (pos # nonoverlapping_occurrences needle (pos + int (length needle))
              (drop (length needle) xs))" using p(1) by simp
      ultimately show ?thesis unfolding eq by blast
    qed
  next
    case False
    have eq: "nonoverlapping_occurrences needle pos xs =
        nonoverlapping_occurrences needle (pos + 1) (tl xs)"
      using False by (rule occurrences_miss)
    from False pre have "i \<noteq> 0" by (cases i) auto
    then obtain j where j: "i = Suc j" by (cases i) auto
    with pre have "prefix needle (drop j (tl xs))" by (simp add: drop_Suc)
    from "1.IH"(2)[OF cond False ne this]
    obtain p where p: "p \<in> set (nonoverlapping_occurrences needle (pos + 1) (tl xs))"
      "p \<le> pos + 1 + int j" "pos + 1 + int j < p + int (length needle)"
      by blast
    have "p \<le> pos + int i" and "pos + int i < p + int (length needle)"
      using p(2,3) j by simp_all
    with p(1) show ?thesis unfolding eq by blast
  qed
qed

lemma occurrences_two:
  assumes "needle \<noteq> []" and "\<forall>i<k. \<not> prefix needle (drop i xs)"
    and "prefix needle (drop k xs)" and "prefix needle (drop (k + length needle) xs)"
  shows "\<exists>rest. nonoverlapping_occurrences needle pos xs =
    (pos + int k) # (pos + int k + int (length needle)) # rest"
proof -
  have "nonoverlapping_occurrences needle pos xs =
      nonoverlapping_occurrences needle (pos + int k) (drop k xs)"
    using assms(2) by (rule occurrences_skip)
  also have "\<dots> = (pos + int k) # nonoverlapping_occurrences needle (pos + int k + int (length needle))
      (drop (length needle) (drop k xs))"
    using assms(1,3) by (rule occurrences_hit)
  also have "nonoverlapping_occurrences needle (pos + int k + int (length needle))
      (drop (length needle) (drop k xs)) =
      (pos + int k + int (length needle)) # nonoverlapping_occurrences needle
         (pos + int k + int (length needle) + int (length needle))
         (drop (length needle) (drop (length needle) (drop k xs)))"
  proof (rule occurrences_hit[OF assms(1)])
    have "drop (length needle) (drop k xs) = drop (k + length needle) xs"
      by (simp add: add.commute)
    with assms(4) show "prefix needle (drop (length needle) (drop k xs))" by simp
  qed
  finally show ?thesis by blast
qed

lemma readBufferBytes_faithful:
  assumes "end_addr m = start m + int (length (bytebuffer m))"
    and "start m \<le> a" and "0 < n" and "a + n \<le> end_addr m"
  shows "readBufferBytes m a n = Inr (take (nat n) (drop (nat (a - start m)) (bytebuffer m)))"
proof -
  let ?l = "a - start m"
  have i: "py_index (bytebuffer m) ?l = nat ?l"
    using assms by (simp add: py_index_def)
  have j: "py_index (bytebuffer m) (?l + n) = nat ?l + nat n"
    using assms by (simp add: py_index_def)
  show ?thesis by (simp add: readBufferBytes_def py_slice_def Let_def i j)
qed


text \<open>
  C3. For a mapping whose bytes \<open>readBytes\<close> returns as they are, a needle that is
  not empty and enough fuel, \<open>search\<close> ends and yields the positions of the needle
  found from left to right, the scan going on behind each match. Every position
  yielded is one where the needle occurs; every occurrence of the needle starts at
  a yielded position or less than the length of the needle after one; and when the
  needle occurs at the offsets 5 and 5 + its length and at no offset below 5, the
  two positions are the first two yielded. The windows and the two advances are
  those of \<open>search_loop\<close> (lemmas \<open>search_loop_miss\<close> and \<open>search_loop_hit\<close>).
\<close>

theorem C3_search_yields_nonoverlapping_occurrences:
  fixes m :: "'a MemoryMapping_scheme"
  assumes "bytestr \<noteq> []"
    and "int (length content) = end_addr m - start m"
    and "\<forall>a n. start m \<le> a \<and> 0 < n \<and> a + n \<le> end_addr m \<longrightarrow>
           readBytes a n = Inr (take (nat n) (drop (nat (a - start m)) content))"
    and "length content < fuel"
  shows "search fuel readBytes m bytestr =
      (nonoverlapping_occurrences bytestr (start m) content, Done ())
    \<and> (\<forall>p \<in> set (fst (search fuel readBytes m bytestr)).
          start m \<le> p \<and> prefix bytestr (drop (nat (p - start m)) content))
    \<and> (\<forall>i. prefix bytestr (drop i content) \<longrightarrow>
          (\<exists>p \<in> set (fst (search fuel readBytes m bytestr)).
             p \<le> start m + int i \<and> start m + int i < p + int (length bytestr)))
    \<and> (prefix bytestr (drop 5 content) \<and> prefix bytestr (drop (5 + length bytestr) content)
        \<and> (\<forall>i<5. \<not> prefix bytestr (drop i content))
        \<longrightarrow> (\<exists>rest. fst (search fuel readBytes m bytestr) =
              (start m + 5) # (start m + 5 + int (length bytestr)) # rest))"
proof -
  define B where "B = (if 64 * 1024 < int (length bytestr) then int (length bytestr) else 64 * 1024)"
  have B: "int (length bytestr) \<le> B" by (simp add: B_def)
  have rd: "readBytes a n = Inr (take (nat n) (drop (nat (a - start m)) content))"
    if "start m \<le> a" and "0 < n" and "a + n \<le> end_addr m" for a n
    using assms(3) that by blast
  have "search_loop fuel readBytes bytestr B (int (length content) - int 0) (start m + int 0)
      = (nonoverlapping_occurrences bytestr (start m + int 0) (drop 0 content), Done ())"
  proof (rule search_loop_correct[OF assms(1) B assms(2)])
    show "0 \<le> length content" by simp
    show "length content - 0 < fuel" using assms(4) by simp
  qed (rule rd)
  moreover have "search fuel readBytes m bytestr =
      search_loop fuel readBytes bytestr B (end_addr m - start m) (start m)"
    by (simp add: search_def Let_def B_def)
  ultimately have eq: "search fuel readBytes m bytestr =
      (nonoverlapping_occurrences bytestr (start m) content, Done ())"
    using assms(2) by simp
  have sound: "\<forall>p \<in> set (fst (search fuel readBytes m bytestr)).
          start m \<le> p \<and> prefix bytestr (drop (nat (p - start m)) content)"
    unfolding eq fst_conv using occurrences_sound by blast
  have complete: "\<forall>i. prefix bytestr (drop i content) \<longrightarrow>
          (\<exists>p \<in> set (fst (search fuel readBytes m bytestr)).
             p \<le> start m + int i \<and> start m + int i < p + int (length bytestr))"
    unfolding eq fst_conv using occurrences_complete[OF assms(1)] by blast
  have two: "prefix bytestr (drop 5 content) \<and> prefix bytestr (drop (5 + length bytestr) content)
        \<and> (\<forall>i<5. \<not> prefix bytestr (drop i content))
        \<longrightarrow> (\<exists>rest. fst (search fuel readBytes m bytestr) =
              (start m + 5) # (start m + 5 + int (length bytestr)) # rest)"
  proof
    assume h: "prefix bytestr (drop 5 content) \<and> prefix bytestr (drop (5 + length bytestr) content)
        \<and> (\<forall>i<5. \<not> prefix bytestr (drop i content))"
    from h have h1: "prefix bytestr (drop 5 content)" and h2: "prefix bytestr (drop (5 + length bytestr) content)"
      and h3: "\<forall>i<5. \<not> prefix bytestr (drop i content)" by blast+
    from occurrences_two[OF assms(1) h3 h1 h2, of "start m"]
    show "\<exists>rest. fst (search fuel readBytes m bytestr) =
              (start m + 5) # (start m + 5 + int (length bytestr)) # rest"
      unfolding eq fst_conv by simp
  qed
  from eq sound complete two show ?thesis by blast
qed

theorem C3_search_yields_nonoverlapping_occurrences_witness:
  "search 14 (readBufferBytes (mk_local_mapping 0x100 ''xxxxxabcabcxx''))
      (mk_local_mapping 0x100 ''xxxxxabcabcxx'') ''abc'' = ([0x105, 0x108], Done ())"
proof -
  let ?m = "mk_local_mapping 0x100 ''xxxxxabcabcxx''"
  have h1: "''abc'' \<noteq> []" by simp
  have h2: "int (length ''xxxxxabcabcxx'') = end_addr ?m - start ?m"
    by (simp add: mk_local_mapping_def)
  have h3: "\<forall>a n. start ?m \<le> a \<and> 0 < n \<and> a + n \<le> end_addr ?m \<longrightarrow>
      readBufferBytes ?m a n = Inr (take (nat n) (drop (nat (a - start ?m)) ''xxxxxabcabcxx''))"
  proof (intro allI impI)
    fix a n
    assume "start ?m \<le> a \<and> 0 < n \<and> a + n \<le> end_addr ?m"
    then have "readBufferBytes ?m a n = Inr (take (nat n) (drop (nat (a - start ?m)) (bytebuffer ?m)))"
      by (intro readBufferBytes_faithful) (simp_all add: mk_local_mapping_def)
    then show "readBufferBytes ?m a n = Inr (take (nat n) (drop (nat (a - start ?m)) ''xxxxxabcabcxx''))"
      by (simp add: mk_local_mapping_def)
  qed
  have h4: "length ''xxxxxabcabcxx'' < 14" by simp
  have "search 14 (readBufferBytes ?m) ?m ''abc'' =
      (nonoverlapping_occurrences ''abc'' (start ?m) ''xxxxxabcabcxx'', Done ())"
    using C3_search_yields_nonoverlapping_occurrences[OF h1 h2 h3 h4] by blast
  moreover have "nonoverlapping_occurrences ''abc'' (start ?m) ''xxxxxabcabcxx'' = [0x105, 0x108]"
    by (simp add: nonoverlapping_occurrences.simps mk_local_mapping_def)
  ultimately show ?thesis by simp
qed

text \<open>
  An occurrence that overlaps a yielded one is not yielded: in \<open>aaa\<close> the needle
  \<open>aa\<close> occurs at 0 and at 1, and \<open>search\<close> yields 0 only.
\<close>

theorem C3_search_misses_overlapping_occurrence:
  "prefix ''aa'' (drop 1 ''aaa'')
   \<and> search 4 (readBufferBytes (mk_local_mapping 0 ''aaa'')) (mk_local_mapping 0 ''aaa'') ''aa''
       = ([0], Done ())
   \<and> 1 \<notin> set (fst (search 4 (readBufferBytes (mk_local_mapping 0 ''aaa''))
                        (mk_local_mapping 0 ''aaa'') ''aa''))"
  by (simp add: search_def readBufferBytes_def mk_local_mapping_def py_slice_def
      py_index_def Let_def eval_nat_numeral)


end
